theory Spec2Isabelle
  imports Main
begin

section \<open>The schema upgrade of store/sqlstore/upgrade.go\<close>

text \<open>
  The Go file reaches the database only through \<^verbatim>\<open>database/sql\<close>:
  \<^verbatim>\<open>c.db.Exec\<close>, \<^verbatim>\<open>c.db.QueryRow\<close> with \<^verbatim>\<open>row.Scan\<close>,
  \<^verbatim>\<open>c.db.Begin\<close>, \<^verbatim>\<open>tx.Exec\<close>, \<^verbatim>\<open>tx.Commit\<close> and
  \<^verbatim>\<open>tx.Rollback\<close>. The embedding passes one explicit \<open>world\<close> through these
  calls: the committed contents of the database, the open transactions with their
  uncommitted view, the logger of the container, and an environment that says which driver
  call fails.
\<close>

subsection \<open>Errors, SQL values and statements\<close>

text \<open>A Go \<^verbatim>\<open>error\<close> value is its message; \<^verbatim>\<open>nil\<close> is \<open>None\<close> of \<open>error option\<close>.\<close>

type_synonym error = string

definition ErrNoRows :: error where
  "ErrNoRows = ''sql: no rows in result set''"

definition ErrTxDone :: error where
  "ErrTxDone = ''sql: transaction has already been committed or rolled back''"

definition ErrNoSuchTable :: error where
  "ErrNoSuchTable = ''no such table: whatsmeow_version''"

definition ErrScanNull :: error where
  "ErrScanNull = ''sql: Scan error on column index 0, name version: converting NULL to int is unsupported''"

text \<open>
  The column \<^verbatim>\<open>version INTEGER\<close> holds an integer or NULL. Go's \<^verbatim>\<open>int\<close> and the
  SQL integer are both 64 bits wide on the supported platforms and the code only ever adds 1
  to a version below \<^verbatim>\<open>len(Upgrades)\<close>, so no arithmetic of the file can overflow; the
  versions are modelled as \<open>int\<close>.
\<close>

datatype cell = IntCell int | NullCell

text \<open>
  The statements the file sends. \<open>CreateTable n\<close> stands for
  \<^verbatim>\<open>create table IF NOT EXISTS n (...)\<close> of the upgrade steps; the column lists are not
  modelled.
\<close>

datatype stmt =
    CreateVersionTable
  | DeleteVersion
  | InsertVersion int
  | CreateTable string

text \<open>
  A database: the rows of \<^verbatim>\<open>whatsmeow_version\<close> (\<open>None\<close> while the table does not
  exist) and the names of the other tables that exist.
\<close>

record store =
  version_rows :: "cell list option"
  tables :: "string set"

definition create_version_table :: "store \<Rightarrow> store" where
  "create_version_table s =
     (case version_rows s of
        None \<Rightarrow> s\<lparr>version_rows := Some []\<rparr>
      | Some rows \<Rightarrow> s)"

fun exec_stmt :: "stmt \<Rightarrow> store \<Rightarrow> error + store" where
  "exec_stmt CreateVersionTable s = Inr (create_version_table s)"
| "exec_stmt DeleteVersion s =
     (case version_rows s of
        None \<Rightarrow> Inl ErrNoSuchTable
      | Some rows \<Rightarrow> Inr (s\<lparr>version_rows := Some []\<rparr>))"
| "exec_stmt (InsertVersion version) s =
     (case version_rows s of
        None \<Rightarrow> Inl ErrNoSuchTable
      | Some rows \<Rightarrow> Inr (s\<lparr>version_rows := Some (rows @ [IntCell version])\<rparr>))"
| "exec_stmt (CreateTable name) s =
     (if name = ''whatsmeow_version'' then Inr (create_version_table s)
      else Inr (s\<lparr>tables := insert name (tables s)\<rparr>))"

text \<open>\<^verbatim>\<open>SELECT version FROM whatsmeow_version LIMIT 1\<close>: the first row, if there is one.\<close>

definition select_version :: "store \<Rightarrow> error + cell" where
  "select_version s =
     (case version_rows s of
        None \<Rightarrow> Inl ErrNoSuchTable
      | Some [] \<Rightarrow> Inl ErrNoRows
      | Some (c # rest) \<Rightarrow> Inr c)"

subsection \<open>The container and its database handle\<close>

text \<open>One line of \<^verbatim>\<open>c.log\<close>: the format string and its integer argument.\<close>

datatype logline = Infof string int

text \<open>
  \<open>durable\<close> is what has been committed. \<open>txs\<close> maps the handle of every open transaction
  to its own view of the database; \<open>next_tx\<close> is the handle the next \<^verbatim>\<open>Begin\<close> hands out.
  \<open>faults\<close> is the environment: the driver call number \<open>clock\<close> fails with
  \<open>faults w (clock w)\<close> when that is an error, and every driver call advances \<open>clock\<close>.
  \<open>commit_lands\<close> belongs to the environment too: it says, for a commit that fails, whether
  the changes have reached the database all the same.
\<close>

record world =
  durable :: store
  txs :: "nat \<Rightarrow> store option"
  next_tx :: nat
  clock :: nat
  faults :: "nat \<Rightarrow> error option"
  commit_lands :: "nat \<Rightarrow> bool"
  log :: "logline list"

definition tick :: "world \<Rightarrow> world" where
  "tick w = w\<lparr>clock := Suc (clock w)\<rparr>"

definition log_Infof :: "string \<Rightarrow> int \<Rightarrow> world \<Rightarrow> world" where
  "log_Infof fmt n w = w\<lparr>log := log w @ [Infof fmt n]\<rparr>"

text \<open>\<^verbatim>\<open>c.db.Exec\<close>: one statement outside any transaction, committed at once.\<close>

definition db_Exec :: "stmt \<Rightarrow> world \<Rightarrow> error option \<times> world" where
  "db_Exec q w =
     (case faults w (clock w) of
        Some err \<Rightarrow> (Some err, tick w)
      | None \<Rightarrow>
          (case exec_stmt q (durable w) of
             Inl err \<Rightarrow> (Some err, tick w)
           | Inr s \<Rightarrow> (None, tick (w\<lparr>durable := s\<rparr>))))"

text \<open>
  \<^verbatim>\<open>c.db.QueryRow\<close> never returns nil: a failure of the query is kept in the row and
  comes out of \<^verbatim>\<open>Scan\<close>. The row is the error or the first row's value.
\<close>

definition db_QueryRow :: "world \<Rightarrow> (error + cell) \<times> world" where
  "db_QueryRow w =
     (case faults w (clock w) of
        Some err \<Rightarrow> (Inl err, tick w)
      | None \<Rightarrow> (select_version (durable w), tick w))"

text \<open>
  \<^verbatim>\<open>row.Scan(&version)\<close>: the destination is passed in and comes back, unchanged when
  \<^verbatim>\<open>Scan\<close> fails.
\<close>

fun row_Scan :: "error + cell \<Rightarrow> int \<Rightarrow> error option \<times> int" where
  "row_Scan (Inl err) dest = (Some err, dest)"
| "row_Scan (Inr (IntCell v)) dest = (None, v)"
| "row_Scan (Inr NullCell) dest = (Some ErrScanNull, dest)"

text \<open>\<^verbatim>\<open>c.db.Begin\<close>: a new transaction that sees the committed database.\<close>

definition db_Begin :: "world \<Rightarrow> (error + nat) \<times> world" where
  "db_Begin w =
     (case faults w (clock w) of
        Some err \<Rightarrow> (Inl err, tick w)
      | None \<Rightarrow>
          (Inr (next_tx w),
           tick (w\<lparr>txs := (txs w)(next_tx w \<mapsto> durable w), next_tx := Suc (next_tx w)\<rparr>)))"

text \<open>
  \<^verbatim>\<open>tx.Exec\<close>: a statement inside the transaction changes the transaction's view only.
  On a transaction that is no longer open the library answers \<^verbatim>\<open>ErrTxDone\<close> without
  calling the driver.
\<close>

definition tx_Exec :: "nat \<Rightarrow> stmt \<Rightarrow> world \<Rightarrow> error option \<times> world" where
  "tx_Exec tx q w =
     (case txs w tx of
        None \<Rightarrow> (Some ErrTxDone, w)
      | Some s \<Rightarrow>
          (case faults w (clock w) of
             Some err \<Rightarrow> (Some err, tick w)
           | None \<Rightarrow>
               (case exec_stmt q s of
                  Inl err \<Rightarrow> (Some err, tick w)
                | Inr s' \<Rightarrow> (None, tick (w\<lparr>txs := (txs w)(tx \<mapsto> s')\<rparr>)))))"

text \<open>
  \<^verbatim>\<open>tx.Commit\<close>: the transaction's view becomes the committed database. A commit that
  fails ends the transaction all the same; the library cannot tell whether the changes were
  applied, and the environment decides it.
\<close>

definition tx_Commit :: "nat \<Rightarrow> world \<Rightarrow> error option \<times> world" where
  "tx_Commit tx w =
     (case txs w tx of
        None \<Rightarrow> (Some ErrTxDone, w)
      | Some s \<Rightarrow>
          (case faults w (clock w) of
             Some err \<Rightarrow>
               (Some err,
                tick (w\<lparr>durable := (if commit_lands w (clock w) then s else durable w),
                        txs := (txs w)(tx := None)\<rparr>))
           | None \<Rightarrow> (None, tick (w\<lparr>durable := s, txs := (txs w)(tx := None)\<rparr>))))"

text \<open>\<^verbatim>\<open>tx.Rollback\<close>: the transaction ends and its view is dropped.\<close>

definition tx_Rollback :: "nat \<Rightarrow> world \<Rightarrow> error option \<times> world" where
  "tx_Rollback tx w =
     (case txs w tx of
        None \<Rightarrow> (Some ErrTxDone, w)
      | Some s \<Rightarrow>
          (case faults w (clock w) of
             Some err \<Rightarrow> (Some err, tick (w\<lparr>txs := (txs w)(tx := None)\<rparr>))
           | None \<Rightarrow> (None, tick (w\<lparr>txs := (txs w)(tx := None)\<rparr>))))"

subsection \<open>getVersion and setVersion\<close>

text \<open>
  \<^verbatim>\<open>
  func (c *Container) getVersion() (int, error) {
      _, err := c.db.Exec("CREATE TABLE IF NOT EXISTS whatsmeow_version (version INTEGER)")
      if err != nil {
          return -1, err
      }
      version := 0
      row := c.db.QueryRow("SELECT version FROM whatsmeow_version LIMIT 1")
      if row != nil {
          _ = row.Scan(&version)
      }
      return version, nil
  }
  \<close>
  The row is never nil, so the \<^verbatim>\<open>Scan\<close> always runs; its error is dropped.
\<close>

definition getVersion :: "world \<Rightarrow> (int \<times> error option) \<times> world" where
  "getVersion w =
     (case db_Exec CreateVersionTable w of
        (Some err, w1) \<Rightarrow> ((- 1, Some err), w1)
      | (None, w1) \<Rightarrow>
          (case db_QueryRow w1 of
             (row, w2) \<Rightarrow>
               (case row_Scan row 0 of
                  (scan_err, version) \<Rightarrow> ((version, None), w2))))"

text \<open>
  \<^verbatim>\<open>
  func (c *Container) setVersion(tx *sql.Tx, version int) error {
      _, err := tx.Exec("DELETE FROM whatsmeow_version")
      if err != nil {
          return err
      }
      _, err = tx.Exec("INSERT INTO whatsmeow_version (version) VALUES (?)", version)
      return err
  }
  \<close>
\<close>

definition setVersion :: "nat \<Rightarrow> int \<Rightarrow> world \<Rightarrow> error option \<times> world" where
  "setVersion tx version w =
     (case tx_Exec tx DeleteVersion w of
        (Some err, w1) \<Rightarrow> (Some err, w1)
      | (None, w1) \<Rightarrow> tx_Exec tx (InsertVersion version) w1)"

subsection \<open>The upgrade steps\<close>

text \<open>
  \<^verbatim>\<open>type upgradeFunc func(*sql.Tx, *Container) error\<close>: a step gets the transaction and
  the container, here the handle and the world.
\<close>

type_synonym upgradeFunc = "nat \<Rightarrow> world \<Rightarrow> error option \<times> world"

text \<open>
  \<open>upgradeV1\<close> is nine times
  \<^verbatim>\<open>_, err = tx.Exec(`create table IF NOT EXISTS ...`); if err != nil { return err }\<close>
  and then \<^verbatim>\<open>return nil\<close>: the statements run in order and the first error is returned.
\<close>

fun exec_each :: "nat \<Rightarrow> stmt list \<Rightarrow> world \<Rightarrow> error option \<times> world" where
  "exec_each tx [] w = (None, w)"
| "exec_each tx (q # qs) w =
     (case tx_Exec tx q w of
        (Some err, w1) \<Rightarrow> (Some err, w1)
      | (None, w1) \<Rightarrow> exec_each tx qs w1)"

definition upgradeV1 :: upgradeFunc where
  "upgradeV1 tx w =
     exec_each tx
       [CreateTable ''whatsmeow_device'',
        CreateTable ''whatsmeow_identity_keys'',
        CreateTable ''whatsmeow_sessions'',
        CreateTable ''whatsmeow_sender_keys'',
        CreateTable ''whatsmeow_app_state_sync_keys'',
        CreateTable ''whatsmeow_app_state_version'',
        CreateTable ''whatsmeow_app_state_mutation_macs'',
        CreateTable ''whatsmeow_contacts'',
        CreateTable ''whatsmeow_chat_settings''] w"

text \<open>The body of \<open>upgradeV2\<close> is commented out in the source; what is left is \<^verbatim>\<open>return nil\<close>.\<close>

definition upgradeV2 :: upgradeFunc where
  "upgradeV2 tx w = (None, w)"

text \<open>\<^verbatim>\<open>var Upgrades = [...]upgradeFunc{upgradeV1, upgradeV2}\<close>\<close>

definition Upgrades :: "upgradeFunc list" where
  "Upgrades = [upgradeV1, upgradeV2]"

subsection \<open>Upgrade\<close>

text \<open>
  A call returns its error value, or panics: \<^verbatim>\<open>Upgrades[version]\<close> with a negative
  \<^verbatim>\<open>version\<close> is an index out of range.
\<close>

datatype 'a outcome = Return 'a | Panic

text \<open>
  \<^verbatim>\<open>
  for ; version < len(Upgrades); version++ {
      var tx *sql.Tx
      tx, err = c.db.Begin()
      if err != nil {
          return err
      }
      migrateFunc := Upgrades[version]
      c.log.Infof("Upgrading database to v%d", version+1)
      err = migrateFunc(tx, c)
      if err != nil {
          _ = tx.Rollback()
          return err
      }
      if err = c.setVersion(tx, version+1); err != nil {
          return err
      }
      if err = tx.Commit(); err != nil {
          return err
      }
  }
  return nil
  \<close>
  The loop is a recursion on the cursor. The package variable \<^verbatim>\<open>Upgrades\<close> is the
  parameter \<open>ups\<close>, so that the loop can be studied for any list of steps.
\<close>

function Upgrade_loop :: "upgradeFunc list \<Rightarrow> int \<Rightarrow> world \<Rightarrow> error option outcome \<times> world" where
  "Upgrade_loop ups version w =
     (if version < int (length ups) then
        (case db_Begin w of
           (Inl err, w1) \<Rightarrow> (Return (Some err), w1)
         | (Inr tx, w1) \<Rightarrow>
             (if version < 0 then (Panic, w1)
              else
                (case (ups ! nat version) tx (log_Infof ''Upgrading database to v%d'' (version + 1) w1) of
                   (Some err, w2) \<Rightarrow> (Return (Some err), snd (tx_Rollback tx w2))
                 | (None, w2) \<Rightarrow>
                     (case setVersion tx (version + 1) w2 of
                        (Some err, w3) \<Rightarrow> (Return (Some err), w3)
                      | (None, w3) \<Rightarrow>
                          (case tx_Commit tx w3 of
                             (Some err, w4) \<Rightarrow> (Return (Some err), w4)
                           | (None, w4) \<Rightarrow> Upgrade_loop ups (version + 1) w4)))))
      else (Return None, w))"
  by pat_completeness auto
termination
  by (relation "measure (\<lambda>(ups, version, w). nat (int (length ups) - version))") auto

declare Upgrade_loop.simps [simp del]

text \<open>
  \<^verbatim>\<open>
  func (c *Container) Upgrade() error {
      version, err := c.getVersion()
      if err != nil {
          return err
      }
      for ... { ... }
      return nil
  }
  \<close>
\<close>

definition Upgrade :: "upgradeFunc list \<Rightarrow> world \<Rightarrow> error option outcome \<times> world" where
  "Upgrade ups w =
     (case getVersion w of
        ((version, Some err), w1) \<Rightarrow> (Return (Some err), w1)
      | ((version, None), w1) \<Rightarrow> Upgrade_loop ups version w1)"

subsection \<open>What the properties are stated with\<close>

text \<open>
  The version a store holds: what the read of \<open>getVersion\<close> yields on it when the query
  itself does not fail, that is the first row's integer, and 0 when the table is missing or
  empty or its first row is NULL.
\<close>

definition persisted_version :: "store \<Rightarrow> int" where
  "persisted_version s = snd (row_Scan (select_version s) 0)"

definition version_row_count :: "store \<Rightarrow> nat" where
  "version_row_count s = (case version_rows s of None \<Rightarrow> 0 | Some rows \<Rightarrow> length rows)"

definition persisted :: "world \<Rightarrow> int" where
  "persisted w = persisted_version (durable w)"

text \<open>The database fails no driver call.\<close>

definition healthy :: "world \<Rightarrow> bool" where
  "healthy w \<longleftrightarrow> (\<forall>t. faults w t = None)"

text \<open>The line the loop logs before it calls step \<open>n - 1\<close>.\<close>

definition announce :: "int \<Rightarrow> logline" where
  "announce n = Infof ''Upgrading database to v%d'' n"

text \<open>
  One pass through the body of the loop in which nothing fails: a new transaction, the log
  line, one call of the step \<open>f\<close> with that transaction, \<open>version + 1\<close> written in it, and
  the commit. \<open>iterations\<close> makes these passes for a list of steps: one pass for each step,
  in the order of the list, the cursor going up by one each time.
\<close>

definition iteration :: "upgradeFunc \<Rightarrow> int \<Rightarrow> world \<Rightarrow> world" where
  "iteration f version w =
     (case db_Begin w of
        (Inl err, w1) \<Rightarrow> w1
      | (Inr tx, w1) \<Rightarrow>
          (case f tx (log_Infof ''Upgrading database to v%d'' (version + 1) w1) of
             (r2, w2) \<Rightarrow>
               (case setVersion tx (version + 1) w2 of
                  (r3, w3) \<Rightarrow> snd (tx_Commit tx w3))))"

fun iterations :: "upgradeFunc list \<Rightarrow> int \<Rightarrow> world \<Rightarrow> world" where
  "iterations [] version w = w"
| "iterations (f # fs) version w = iterations fs (version + 1) (iteration f version w)"

text \<open>
  A step is a Go function and could do anything with the container it is handed. The
  steps of the file only run statements in their transaction. \<open>well_behaved\<close> says as much
  as the loop relies on: called with an open transaction, the step leaves the committed
  database, the schedule of faults and the log alone, leaves its transaction open, and
  does not drop the version table in it.
\<close>

definition well_behaved :: "upgradeFunc \<Rightarrow> bool" where
  "well_behaved f \<longleftrightarrow>
     (\<forall>tx w s. txs w tx = Some s \<longrightarrow>
        (case f tx w of
           (r, w') \<Rightarrow>
             durable w' = durable w \<and> faults w' = faults w \<and> log w' = log w \<and>
             (\<exists>s'. txs w' tx = Some s' \<and> (version_rows s \<noteq> None \<longrightarrow> version_rows s' \<noteq> None))))"

text \<open>A step succeeds: it returns nil whenever its transaction is open and the database fails no call.\<close>

definition succeeds :: "upgradeFunc \<Rightarrow> bool" where
  "succeeds f \<longleftrightarrow> (\<forall>tx w. txs w tx \<noteq> None \<longrightarrow> healthy w \<longrightarrow> fst (f tx w) = None)"

text \<open>A step fails deterministically: it returns an error however it is called.\<close>

definition fails :: "upgradeFunc \<Rightarrow> bool" where
  "fails f \<longleftrightarrow> (\<forall>tx w. fst (f tx w) \<noteq> None)"

text \<open>
  A sequence of calls of \<open>Upgrade\<close> on one container, one call for each environment of
  the list: the call made in the environment \<open>F\<close> has its driver calls numbered from 0,
  and everything else (the committed database, the transactions left open, the log) is as
  the call before left it. The result lists the world after each call.
\<close>

fun Upgrade_calls :: "upgradeFunc list \<Rightarrow> (nat \<Rightarrow> error option) list \<Rightarrow> world \<Rightarrow> world list" where
  "Upgrade_calls ups [] w = []"
| "Upgrade_calls ups (F # Fs) w =
     (let w' = snd (Upgrade ups (w\<lparr>clock := 0, faults := F\<rparr>))
      in w' # Upgrade_calls ups Fs w')"

subsection \<open>Concrete stores, environments and steps\<close>

definition no_faults :: "nat \<Rightarrow> error option" where
  "no_faults t = None"

text \<open>The driver calls whose numbers are in \<open>ns\<close> fail with \<open>err\<close>.\<close>

definition faults_at :: "nat list \<Rightarrow> error \<Rightarrow> nat \<Rightarrow> error option" where
  "faults_at ns err t = (if t \<in> set ns then Some err else None)"

definition empty_store :: store where
  "empty_store = \<lparr>version_rows = None, tables = {}\<rparr>"

text \<open>A store that records version 2, and one whose version row holds NULL.\<close>

definition version_2_store :: store where
  "version_2_store = \<lparr>version_rows = Some [IntCell 2], tables = {}\<rparr>"

definition null_version_store :: store where
  "null_version_store = \<lparr>version_rows = Some [NullCell], tables = {}\<rparr>"

text \<open>
  A container just opened on a database with contents \<open>s\<close>, in the environment \<open>F\<close>, where
  a commit that fails has changed nothing.
\<close>

definition world_of :: "store \<Rightarrow> (nat \<Rightarrow> error option) \<Rightarrow> world" where
  "world_of s F =
     \<lparr>durable = s, txs = Map.empty, next_tx = 0, clock = 0, faults = F,
      commit_lands = (\<lambda>t. False), log = []\<rparr>"

definition new_world :: "(nat \<Rightarrow> error option) \<Rightarrow> world" where
  "new_world F = world_of empty_store F"

text \<open>A step that does nothing and returns the error \<open>err\<close>.\<close>

definition failing_step :: "error \<Rightarrow> upgradeFunc" where
  "failing_step err tx w = (Some err, w)"

section \<open>The database calls\<close>

lemma well_behavedD:
  assumes "well_behaved f" "txs w tx = Some s" "f tx w = (r, w')"
  shows "durable w' = durable w" "faults w' = faults w" "log w' = log w"
    "\<exists>s'. txs w' tx = Some s' \<and> (version_rows s \<noteq> None \<longrightarrow> version_rows s' \<noteq> None)"
  using assms unfolding well_behaved_def by fastforce+

lemma db_Begin_Inr:
  assumes "db_Begin w = (Inr tx, w1)"
  shows "txs w1 tx = Some (durable w)" "durable w1 = durable w" "faults w1 = faults w" "log w1 = log w"
  using assms by (auto simp: db_Begin_def tick_def split: option.splits)

lemma db_Begin_Inl:
  assumes "db_Begin w = (Inl e, w1)"
  shows "durable w1 = durable w" "faults w1 = faults w" "log w1 = log w" "txs w1 = txs w"
  using assms by (auto simp: db_Begin_def tick_def split: option.splits)

lemma db_Begin_healthy: "healthy w \<Longrightarrow> \<exists>tx w1. db_Begin w = (Inr tx, w1)"
  by (simp add: db_Begin_def healthy_def)

lemma tx_Exec_frame:
  assumes "tx_Exec tx q w = (r, w')"
  shows "durable w' = durable w" "faults w' = faults w" "log w' = log w"
  using assms by (auto simp: tx_Exec_def tick_def split: option.splits sum.splits)

lemma tx_Exec_None:
  assumes "tx_Exec tx q w = (None, w')"
  shows "\<exists>s s'. txs w tx = Some s \<and> exec_stmt q s = Inr s' \<and> txs w' tx = Some s'"
  using assms by (auto simp: tx_Exec_def tick_def ErrTxDone_def split: option.splits sum.splits)

lemma tx_Exec_open:
  assumes "tx_Exec tx q w = (r, w')" "txs w tx = Some s"
  shows "\<exists>s'. txs w' tx = Some s' \<and> (version_rows s \<noteq> None \<longrightarrow> version_rows s' \<noteq> None)"
proof (cases q)
  case CreateVersionTable
  with assms show ?thesis
    by (auto simp: tx_Exec_def tick_def create_version_table_def split: option.splits sum.splits)
next
  case DeleteVersion
  with assms show ?thesis
    by (auto simp: tx_Exec_def tick_def split: option.splits sum.splits)
next
  case (InsertVersion v)
  with assms show ?thesis
    by (auto simp: tx_Exec_def tick_def split: option.splits sum.splits)
next
  case (CreateTable n)
  with assms show ?thesis
    by (auto simp: tx_Exec_def tick_def create_version_table_def split: option.splits sum.splits if_splits)
qed

lemma tx_Exec_healthy:
  assumes "healthy w" "txs w tx = Some s" "exec_stmt q s = Inr s'"
  shows "\<exists>w'. tx_Exec tx q w = (None, w') \<and> healthy w'"
  using assms by (simp add: tx_Exec_def healthy_def tick_def)

lemma setVersion_frame:
  assumes "setVersion tx v w = (r, w')"
  shows "durable w' = durable w" "faults w' = faults w" "log w' = log w"
proof -
  obtain r1 w1 where d: "tx_Exec tx DeleteVersion w = (r1, w1)" by fastforce
  note f1 = tx_Exec_frame [OF d]
  have "durable w' = durable w \<and> faults w' = faults w \<and> log w' = log w"
  proof (cases r1)
    case (Some e)
    with d assms have "w' = w1" by (simp add: setVersion_def)
    with f1 show ?thesis by simp
  next
    case None
    with d assms have "tx_Exec tx (InsertVersion v) w1 = (r, w')" by (simp add: setVersion_def)
    from tx_Exec_frame [OF this] f1 show ?thesis by simp
  qed
  then show "durable w' = durable w" "faults w' = faults w" "log w' = log w" by simp_all
qed

lemma setVersion_None:
  assumes "setVersion tx v w = (None, w')"
  shows "\<exists>s'. txs w' tx = Some s' \<and> version_rows s' = Some [IntCell v]"
proof -
  from assms obtain w1 where d: "tx_Exec tx DeleteVersion w = (None, w1)"
    and i: "tx_Exec tx (InsertVersion v) w1 = (None, w')"
    by (auto simp: setVersion_def split: prod.splits option.splits)
  from tx_Exec_None [OF d] obtain s s1 where
    "exec_stmt DeleteVersion s = Inr s1" "txs w1 tx = Some s1" by blast
  then have r1: "version_rows s1 = Some []" "txs w1 tx = Some s1"
    by (auto split: option.splits)
  from tx_Exec_None [OF i] r1 obtain s2 where
    "exec_stmt (InsertVersion v) s1 = Inr s2" "txs w' tx = Some s2" by auto
  with r1 show ?thesis by auto
qed

lemma setVersion_healthy:
  assumes "healthy w" "txs w tx = Some s" "version_rows s \<noteq> None"
  shows "\<exists>w'. setVersion tx v w = (None, w')"
  using assms
  by (auto simp: setVersion_def tx_Exec_def healthy_def tick_def split: option.splits)

lemma tx_Commit_None:
  assumes "tx_Commit tx w = (None, w')" "txs w tx = Some s"
  shows "durable w' = s" "faults w' = faults w" "log w' = log w" "txs w' tx = None"
  using assms by (auto simp: tx_Commit_def tick_def split: option.splits)

lemma tx_Commit_Some:
  assumes "tx_Commit tx w = (Some e, w')"
  shows "durable w' = durable w \<or> txs w tx = Some (durable w')"
    "faults w' = faults w" "log w' = log w" "txs w' tx = None"
  using assms by (auto simp: tx_Commit_def tick_def split: option.splits if_splits)

lemma tx_Commit_healthy:
  assumes "healthy w" "txs w tx = Some s"
  shows "\<exists>w'. tx_Commit tx w = (None, w')"
  using assms by (simp add: tx_Commit_def healthy_def)

lemma tx_Rollback_frame:
  "durable (snd (tx_Rollback tx w)) = durable w"
  "faults (snd (tx_Rollback tx w)) = faults w"
  "log (snd (tx_Rollback tx w)) = log w"
  "txs (snd (tx_Rollback tx w)) tx = None"
  by (auto simp: tx_Rollback_def tick_def split: option.splits)

lemma log_Infof_frame:
  "durable (log_Infof fmt n w) = durable w"
  "faults (log_Infof fmt n w) = faults w"
  "txs (log_Infof fmt n w) = txs w"
  "log (log_Infof fmt n w) = log w @ [Infof fmt n]"
  by (simp_all add: log_Infof_def)

section \<open>One iteration of the loop\<close>

lemma Upgrade_loop_done:
  "\<not> version < int (length ups) \<Longrightarrow> Upgrade_loop ups version w = (Return None, w)"
  by (simp add: Upgrade_loop.simps)

lemma Upgrade_loop_step_fails:
  assumes v: "0 \<le> version" "version < int (length ups)"
    and wb: "well_behaved (ups ! nat version)"
    and b: "db_Begin w = (Inr tx, w1)"
    and s: "(ups ! nat version) tx (log_Infof ''Upgrading database to v%d'' (version + 1) w1) = (Some err, w2)"
  shows "Upgrade_loop ups version w = (Return (Some err), snd (tx_Rollback tx w2))"
    and "txs (snd (tx_Rollback tx w2)) tx = None"
    and "durable (snd (tx_Rollback tx w2)) = durable w"
    and "faults (snd (tx_Rollback tx w2)) = faults w"
    and "log (snd (tx_Rollback tx w2)) = log w @ [announce (version + 1)]"
proof -
  let ?w1 = "log_Infof ''Upgrading database to v%d'' (version + 1) w1"
  have op: "txs ?w1 tx = Some (durable w)"
    using db_Begin_Inr(1) [OF b] by (simp add: log_Infof_frame)
  note f = well_behavedD [OF wb op s]
  show "Upgrade_loop ups version w = (Return (Some err), snd (tx_Rollback tx w2))"
    using v b s by (subst Upgrade_loop.simps) simp
  show "txs (snd (tx_Rollback tx w2)) tx = None" by (rule tx_Rollback_frame)
  show "durable (snd (tx_Rollback tx w2)) = durable w"
    using f(1) db_Begin_Inr(2) [OF b] by (simp add: tx_Rollback_frame log_Infof_frame)
  show "faults (snd (tx_Rollback tx w2)) = faults w"
    using f(2) db_Begin_Inr(3) [OF b] by (simp add: tx_Rollback_frame log_Infof_frame)
  show "log (snd (tx_Rollback tx w2)) = log w @ [announce (version + 1)]"
    using f(3) db_Begin_Inr(4) [OF b] by (simp add: tx_Rollback_frame log_Infof_frame announce_def)
qed

lemma Upgrade_loop_step_cases:
  assumes v: "0 \<le> version" "version < int (length ups)"
    and wb: "well_behaved (ups ! nat version)"
  shows "(\<exists>e w'. Upgrade_loop ups version w = (Return (Some e), w') \<and>
                (durable w' = durable w \<or> version_rows (durable w') = Some [IntCell (version + 1)])) \<or>
         (\<exists>w4. Upgrade_loop ups version w = Upgrade_loop ups (version + 1) w4 \<and>
               version_rows (durable w4) = Some [IntCell (version + 1)])"
proof -
  obtain b w1 where b: "db_Begin w = (b, w1)" by fastforce
  show ?thesis
  proof (cases b)
    case (Inl e)
    with b v have "Upgrade_loop ups version w = (Return (Some e), w1)"
      by (subst Upgrade_loop.simps) simp
    moreover from b Inl have "durable w1 = durable w" by (simp add: db_Begin_Inl)
    ultimately show ?thesis by blast
  next
    case (Inr tx)
    with b have b': "db_Begin w = (Inr tx, w1)" by simp
    let ?w1 = "log_Infof ''Upgrading database to v%d'' (version + 1) w1"
    have op: "txs ?w1 tx = Some (durable w)"
      using db_Begin_Inr(1) [OF b'] by (simp add: log_Infof_frame)
    obtain r2 w2 where s: "(ups ! nat version) tx ?w1 = (r2, w2)" by fastforce
    have d2: "durable w2 = durable w"
      using well_behavedD(1) [OF wb op s] db_Begin_Inr(2) [OF b'] by (simp add: log_Infof_frame)
    show ?thesis
    proof (cases r2)
      case (Some e)
      with s have "(ups ! nat version) tx ?w1 = (Some e, w2)" by simp
      from Upgrade_loop_step_fails(1,3) [OF v wb b' this] show ?thesis by blast
    next
      case None
      obtain r3 w3 where sv: "setVersion tx (version + 1) w2 = (r3, w3)" by fastforce
      have d3: "durable w3 = durable w" using setVersion_frame(1) [OF sv] d2 by simp
      show ?thesis
      proof (cases r3)
        case (Some e)
        with v b' s None sv have "Upgrade_loop ups version w = (Return (Some e), w3)"
          by (subst Upgrade_loop.simps) simp
        with d3 show ?thesis by blast
      next
        case None3: None
        with sv obtain s' where s': "txs w3 tx = Some s'" "version_rows s' = Some [IntCell (version + 1)]"
          using setVersion_None by blast
        obtain r4 w4 where c: "tx_Commit tx w3 = (r4, w4)" by fastforce
        show ?thesis
        proof (cases r4)
          case (Some e)
          with v b' s None sv None3 c have "Upgrade_loop ups version w = (Return (Some e), w4)"
            by (subst Upgrade_loop.simps) simp
          moreover from c Some
          have "durable w4 = durable w \<or> version_rows (durable w4) = Some [IntCell (version + 1)]"
            using tx_Commit_Some(1) [of tx w3 e w4] d3 s' by auto
          ultimately show ?thesis by blast
        next
          case None4: None
          with v b' s None sv None3 c
          have "Upgrade_loop ups version w = Upgrade_loop ups (version + 1) w4"
            by (subst Upgrade_loop.simps) simp
          moreover from c None4 s' have "version_rows (durable w4) = Some [IntCell (version + 1)]"
            using tx_Commit_None(1) by simp
          ultimately show ?thesis by blast
        qed
      qed
    qed
  qed
qed

lemma Upgrade_loop_step_ok:
  assumes v: "0 \<le> version" "version < int (length ups)"
    and wb: "well_behaved (ups ! nat version)"
    and ok: "succeeds (ups ! nat version)"
    and h: "healthy w"
    and t: "version_rows (durable w) \<noteq> None"
  shows "\<exists>w4. Upgrade_loop ups version w = Upgrade_loop ups (version + 1) w4 \<and> healthy w4 \<and>
           version_rows (durable w4) = Some [IntCell (version + 1)] \<and>
           log w4 = log w @ [announce (version + 1)] \<and>
           w4 = iteration (ups ! nat version) version w"
proof -
  from db_Begin_healthy [OF h] obtain tx w1 where b: "db_Begin w = (Inr tx, w1)" by blast
  let ?w1 = "log_Infof ''Upgrading database to v%d'' (version + 1) w1"
  have op: "txs ?w1 tx = Some (durable w)"
    using db_Begin_Inr(1) [OF b] by (simp add: log_Infof_frame)
  have h1: "healthy ?w1"
    using h db_Begin_Inr(3) [OF b] by (simp add: healthy_def log_Infof_frame)
  obtain r2 w2 where s: "(ups ! nat version) tx ?w1 = (r2, w2)" by fastforce
  from ok op h1 s have r2: "r2 = None" unfolding succeeds_def by fastforce
  note f2 = well_behavedD [OF wb op s]
  from f2(4) t obtain s2 where s2: "txs w2 tx = Some s2" "version_rows s2 \<noteq> None" by blast
  have h2: "healthy w2" using h1 f2(2) by (simp add: healthy_def)
  from setVersion_healthy [OF h2 s2] obtain w3 where sv: "setVersion tx (version + 1) w2 = (None, w3)"
    by blast
  note f3 = setVersion_frame [OF sv]
  have h3: "healthy w3" using h2 f3(2) by (simp add: healthy_def)
  from setVersion_None [OF sv] obtain s3 where
    s3: "txs w3 tx = Some s3" "version_rows s3 = Some [IntCell (version + 1)]" by blast
  from tx_Commit_healthy [OF h3 s3(1)] obtain w4 where c: "tx_Commit tx w3 = (None, w4)" by blast
  note f4 = tx_Commit_None [OF c s3(1)]
  have "Upgrade_loop ups version w = Upgrade_loop ups (version + 1) w4"
    using v b s r2 sv c by (subst Upgrade_loop.simps) simp
  moreover have "healthy w4" using h3 f4(2) by (simp add: healthy_def)
  moreover have "version_rows (durable w4) = Some [IntCell (version + 1)]"
    using f4(1) s3(2) by simp
  moreover have "log w4 = log w @ [announce (version + 1)]"
    using f4(3) f3(3) f2(3) db_Begin_Inr(4) [OF b] by (simp add: log_Infof_frame announce_def)
  moreover have "w4 = iteration (ups ! nat version) version w"
    using b s sv c by (simp add: iteration_def)
  ultimately show ?thesis by blast
qed

section \<open>The loop and the whole call\<close>

lemma create_version_table_rows: "version_rows (create_version_table s) \<noteq> None"
  by (simp add: create_version_table_def split: option.splits)

lemma persisted_version_create:
  "persisted_version (create_version_table s) = persisted_version s"
  by (simp add: persisted_version_def create_version_table_def select_version_def
      split: option.splits)

lemma persisted_version_single: "version_rows s = Some [IntCell n] \<Longrightarrow> persisted_version s = n"
  by (simp add: persisted_version_def select_version_def)

lemma getVersion_fault:
  "faults w (clock w) = Some e \<Longrightarrow> getVersion w = ((- 1, Some e), tick w)"
  by (simp add: getVersion_def db_Exec_def)

lemma getVersion_unfold:
  assumes "faults w (clock w) = None"
  shows "getVersion w =
           ((snd (row_Scan (fst (db_QueryRow (tick (w\<lparr>durable := create_version_table (durable w)\<rparr>)))) 0), None),
            snd (db_QueryRow (tick (w\<lparr>durable := create_version_table (durable w)\<rparr>))))"
  using assms by (simp add: getVersion_def db_Exec_def split: prod.splits)

lemma getVersion_ok:
  assumes "faults w (clock w) = None"
  shows "\<exists>v w1. getVersion w = ((v, None), w1) \<and>
           durable w1 = create_version_table (durable w) \<and>
           faults w1 = faults w \<and> log w1 = log w \<and> txs w1 = txs w \<and>
           v = (if faults w (Suc (clock w)) = None then persisted_version (durable w) else 0)"
proof -
  let ?w1 = "tick (w\<lparr>durable := create_version_table (durable w)\<rparr>)"
  have q: "snd (db_QueryRow ?w1) = tick ?w1"
    by (simp add: db_QueryRow_def split: option.splits)
  have v: "snd (row_Scan (fst (db_QueryRow ?w1)) 0) =
             (if faults w (Suc (clock w)) = None then persisted_version (durable w) else 0)"
    using persisted_version_create [of "durable w"]
    by (auto simp: db_QueryRow_def tick_def persisted_version_def split: option.splits)
  show ?thesis
    unfolding getVersion_unfold [OF assms] q v by (simp add: tick_def)
qed

lemma Upgrade_loop_healthy:
  assumes "\<forall>i<length ups. nat version \<le> i \<longrightarrow> well_behaved (ups ! i) \<and> succeeds (ups ! i)"
    and "healthy w" "version_rows (durable w) \<noteq> None"
    and "0 \<le> version" "version \<le> int (length ups)"
  shows "\<exists>w'. Upgrade_loop ups version w = (Return None, w') \<and> healthy w' \<and>
           w' = iterations (drop (nat version) ups) version w \<and>
           log w' = log w @ map announce [version + 1..int (length ups)] \<and>
           (if version < int (length ups)
            then version_rows (durable w') = Some [IntCell (int (length ups))]
            else durable w' = durable w)"
  using assms
proof (induction "nat (int (length ups) - version)" arbitrary: version w)
  case 0
  then have "\<not> version < int (length ups)" by simp
  with Upgrade_loop_done [OF this] "0.prems" show ?case by simp
next
  case (Suc n)
  then have lt: "version < int (length ups)" by linarith
  from Suc.prems(1) lt Suc.prems(4)
  have st: "well_behaved (ups ! nat version)" "succeeds (ups ! nat version)" by auto
  from Upgrade_loop_step_ok [OF Suc.prems(4) lt st Suc.prems(2,3)]
  obtain w4 where w4: "Upgrade_loop ups version w = Upgrade_loop ups (version + 1) w4"
    "healthy w4" "version_rows (durable w4) = Some [IntCell (version + 1)]"
    "log w4 = log w @ [announce (version + 1)]"
    "w4 = iteration (ups ! nat version) version w" by blast
  have n: "n = nat (int (length ups) - (version + 1))" using Suc.hyps(2) by linarith
  have rest: "\<forall>i<length ups. nat (version + 1) \<le> i \<longrightarrow> well_behaved (ups ! i) \<and> succeeds (ups ! i)"
    using Suc.prems(1) by auto
  have v1: "0 \<le> version + 1" "version + 1 \<le> int (length ups)" using Suc.prems(4) lt by simp_all
  have t4: "version_rows (durable w4) \<noteq> None" using w4(3) by simp
  from Suc.hyps(1) [OF n rest w4(2) t4 v1]
  obtain w' where w': "Upgrade_loop ups (version + 1) w4 = (Return None, w')" "healthy w'"
    "w' = iterations (drop (nat (version + 1)) ups) (version + 1) w4"
    "log w' = log w4 @ map announce [version + 1 + 1..int (length ups)]"
    "if version + 1 < int (length ups)
     then version_rows (durable w') = Some [IntCell (int (length ups))]
     else durable w' = durable w4"
    by blast
  have "[version + 1..int (length ups)] = (version + 1) # [version + 1 + 1..int (length ups)]"
    using lt by (simp add: upto_rec1)
  with w'(4) w4(4) have "log w' = log w @ map announce [version + 1..int (length ups)]" by simp
  moreover have "version_rows (durable w') = Some [IntCell (int (length ups))]"
  proof (cases "version + 1 < int (length ups)")
    case True
    with w'(5) show ?thesis by simp
  next
    case False
    with lt have "version + 1 = int (length ups)" by simp
    with False w'(5) w4(3) show ?thesis by simp
  qed
  moreover have "w' = iterations (drop (nat version) ups) version w"
  proof -
    have "nat version < length ups" using lt Suc.prems(4) by simp
    then have "drop (nat version) ups = ups ! nat version # drop (Suc (nat version)) ups"
      by (simp add: Cons_nth_drop_Suc)
    moreover have "nat (version + 1) = Suc (nat version)" using Suc.prems(4) by simp
    ultimately show ?thesis using w'(3) w4(5) by simp
  qed
  ultimately show ?case using w4(1) w'(1,2) lt by simp
qed

lemma Upgrade_loop_fails_at:
  assumes "\<forall>i<nat k. nat version \<le> i \<longrightarrow> well_behaved (ups ! i) \<and> succeeds (ups ! i)"
    and "well_behaved (ups ! nat k)" "fails (ups ! nat k)"
    and "healthy w" "version_rows (durable w) \<noteq> None" "persisted_version (durable w) = version"
    and "0 \<le> version" "version \<le> k" "k < int (length ups)"
  shows "\<exists>e tx w2 w'. Upgrade_loop ups version w = (Return (Some e), w') \<and>
           fst ((ups ! nat k) tx w2) = Some e \<and> healthy w' \<and>
           version_rows (durable w') \<noteq> None \<and> persisted_version (durable w') = k \<and>
           log w' = log w @ map announce [version + 1..k + 1] \<and> txs w' tx = None"
  using assms
proof (induction "nat (k - version)" arbitrary: version w)
  case 0
  then have vk: "version = k" by simp
  from db_Begin_healthy [OF "0.prems"(4)] obtain tx w1 where b: "db_Begin w = (Inr tx, w1)" by blast
  let ?w1 = "log_Infof ''Upgrading database to v%d'' (version + 1) w1"
  obtain r2 w2 where s: "(ups ! nat version) tx ?w1 = (r2, w2)" by fastforce
  have "fst ((ups ! nat version) tx ?w1) \<noteq> None" using "0.prems"(3) vk by (simp add: fails_def)
  with s obtain e where e: "r2 = Some e" by auto
  have wb: "well_behaved (ups ! nat version)" using "0.prems"(2) vk by simp
  have lt: "version < int (length ups)" using "0.prems"(9) vk by simp
  note r = Upgrade_loop_step_fails [OF "0.prems"(7) lt wb b s [unfolded e]]
  have "fst ((ups ! nat k) tx ?w1) = Some e" using s e vk by simp
  moreover have "healthy (snd (tx_Rollback tx w2))" using r(4) "0.prems"(4) by (simp add: healthy_def)
  moreover have "[version + 1..k + 1] = [version + 1]" using vk by simp
  ultimately show ?case using r "0.prems"(5,6) vk by auto
next
  case (Suc n)
  then have lt: "version < k" by linarith
  then have lt': "version < int (length ups)" using Suc.prems(9) by simp
  have "nat version < nat k" using lt Suc.prems(7) by simp
  with Suc.prems(1) have st: "well_behaved (ups ! nat version)" "succeeds (ups ! nat version)" by auto
  from Upgrade_loop_step_ok [OF Suc.prems(7) lt' st Suc.prems(4,5)]
  obtain w4 where w4: "Upgrade_loop ups version w = Upgrade_loop ups (version + 1) w4"
    "healthy w4" "version_rows (durable w4) = Some [IntCell (version + 1)]"
    "log w4 = log w @ [announce (version + 1)]" by blast
  have n: "n = nat (k - (version + 1))" using Suc.hyps(2) by linarith
  have rest: "\<forall>i<nat k. nat (version + 1) \<le> i \<longrightarrow> well_behaved (ups ! i) \<and> succeeds (ups ! i)"
    using Suc.prems(1) by auto
  have p4: "persisted_version (durable w4) = version + 1" "version_rows (durable w4) \<noteq> None"
    using w4(3) by (simp_all add: persisted_version_single)
  have v1: "0 \<le> version + 1" "version + 1 \<le> k" using Suc.prems(7) lt by simp_all
  from Suc.hyps(1) [OF n rest Suc.prems(2,3) w4(2) p4(2,1) v1 Suc.prems(9)]
  obtain e tx w2 w' where w': "Upgrade_loop ups (version + 1) w4 = (Return (Some e), w')"
    "fst ((ups ! nat k) tx w2) = Some e" "healthy w'"
    "version_rows (durable w') \<noteq> None" "persisted_version (durable w') = k"
    "log w' = log w4 @ map announce [version + 1 + 1..k + 1]" "txs w' tx = None"
    by blast
  have "[version + 1..k + 1] = (version + 1) # [version + 1 + 1..k + 1]"
    using lt by (simp add: upto_rec1)
  with w'(6) w4(4) have "log w' = log w @ map announce [version + 1..k + 1]" by simp
  with w4(1) w'(1,2,3,4,5,7) show ?case by auto
qed

lemma Upgrade_loop_durable:
  assumes "\<forall>f\<in>set ups. well_behaved f" "0 \<le> version"
  shows "\<exists>r w'. Upgrade_loop ups version w = (Return r, w') \<and>
           (durable w' = durable w \<or>
            (\<exists>n. version < n \<and> n \<le> int (length ups) \<and> version_rows (durable w') = Some [IntCell n]))"
  using assms
proof (induction "nat (int (length ups) - version)" arbitrary: version w)
  case 0
  then have "\<not> version < int (length ups)" by simp
  from Upgrade_loop_done [OF this] show ?case by simp
next
  case (Suc n)
  then have lt: "version < int (length ups)" by linarith
  with Suc.prems have wb: "well_behaved (ups ! nat version)" by simp
  from Upgrade_loop_step_cases [OF Suc.prems(2) lt wb, of w]
  consider (stop) e w' where "Upgrade_loop ups version w = (Return (Some e), w')"
      "durable w' = durable w \<or> version_rows (durable w') = Some [IntCell (version + 1)]"
    | (go) w4 where "Upgrade_loop ups version w = Upgrade_loop ups (version + 1) w4"
      "version_rows (durable w4) = Some [IntCell (version + 1)]"
    by blast
  then show ?case
  proof cases
    case stop
    with lt show ?thesis by (auto intro: exI [of _ "version + 1"])
  next
    case w4: go
    have n: "n = nat (int (length ups) - (version + 1))" using Suc.hyps(2) by linarith
    have v1: "0 \<le> version + 1" using Suc.prems(2) by simp
    from Suc.hyps(1) [OF n Suc.prems(1) v1, of w4]
    obtain r w' where w': "Upgrade_loop ups (version + 1) w4 = (Return r, w')"
      "durable w' = durable w4 \<or>
       (\<exists>m. version + 1 < m \<and> m \<le> int (length ups) \<and> version_rows (durable w') = Some [IntCell m])"
      by blast
    from w'(2) w4(2) lt
    have "\<exists>m. version < m \<and> m \<le> int (length ups) \<and> version_rows (durable w') = Some [IntCell m]"
      by (auto intro: exI [of _ "version + 1"])
    with w4(1) w'(1) show ?thesis by auto
  qed
qed

lemma exec_each_frame:
  assumes "txs w tx = Some s" "exec_each tx qs w = (r, w')"
  shows "durable w' = durable w \<and> faults w' = faults w \<and> log w' = log w \<and>
         (\<exists>s'. txs w' tx = Some s' \<and> (version_rows s \<noteq> None \<longrightarrow> version_rows s' \<noteq> None))"
  using assms
proof (induction qs arbitrary: w s)
  case Nil
  then show ?case by simp
next
  case (Cons q qs)
  obtain r1 w1 where e: "tx_Exec tx q w = (r1, w1)" by fastforce
  note f = tx_Exec_frame [OF e]
  from tx_Exec_open [OF e Cons.prems(1)] obtain s1 where
    s1: "txs w1 tx = Some s1" "version_rows s \<noteq> None \<longrightarrow> version_rows s1 \<noteq> None" by blast
  show ?case
  proof (cases r1)
    case (Some err)
    with e Cons.prems(2) have "w' = w1" by simp
    with f s1 show ?thesis by simp
  next
    case None
    with e Cons.prems(2) have "exec_each tx qs w1 = (r, w')" by simp
    from Cons.IH [OF s1(1) this] f s1(2) show ?thesis by auto
  qed
qed

lemma exec_each_healthy:
  assumes "healthy w" "txs w tx = Some s" "\<forall>q\<in>set qs. \<exists>n. q = CreateTable n"
  shows "fst (exec_each tx qs w) = None"
  using assms
proof (induction qs arbitrary: w s)
  case Nil
  then show ?case by simp
next
  case (Cons q qs)
  then obtain n where q: "q = CreateTable n" by auto
  obtain s' where s': "exec_stmt q s = Inr s'" using q by (cases "n = ''whatsmeow_version''") simp_all
  from tx_Exec_healthy [OF Cons.prems(1,2) s'] obtain w1 where
    e: "tx_Exec tx q w = (None, w1)" "healthy w1" by blast
  from tx_Exec_None [OF e(1)] obtain s1 where s1: "txs w1 tx = Some s1" by blast
  from Cons.IH [OF e(2) s1] Cons.prems(3) e(1) show ?case by simp
qed

lemma well_behaved_upgradeV1: "well_behaved upgradeV1"
  unfolding well_behaved_def
proof (intro allI impI)
  fix tx and w :: world and s :: store
  assume op: "txs w tx = Some s"
  obtain r w' where e: "upgradeV1 tx w = (r, w')" by fastforce
  from exec_each_frame [OF op e [unfolded upgradeV1_def]]
  show "case upgradeV1 tx w of
          (r, w') \<Rightarrow>
            durable w' = durable w \<and> faults w' = faults w \<and> log w' = log w \<and>
            (\<exists>s'. txs w' tx = Some s' \<and> (version_rows s \<noteq> None \<longrightarrow> version_rows s' \<noteq> None))"
    unfolding e by simp
qed

lemma succeeds_upgradeV1: "succeeds upgradeV1"
  unfolding succeeds_def
proof (intro allI impI)
  fix tx and w :: world
  assume "txs w tx \<noteq> None" and h: "healthy w"
  then obtain s where op: "txs w tx = Some s" by auto
  show "fst (upgradeV1 tx w) = None"
    unfolding upgradeV1_def by (rule exec_each_healthy [OF h op]) simp
qed

lemma well_behaved_upgradeV2: "well_behaved upgradeV2"
  by (simp add: well_behaved_def upgradeV2_def)

lemma succeeds_upgradeV2: "succeeds upgradeV2"
  by (simp add: succeeds_def upgradeV2_def)

lemma well_behaved_failing_step: "well_behaved (failing_step err)"
  by (simp add: well_behaved_def failing_step_def)

lemma fails_failing_step: "fails (failing_step err)"
  by (simp add: fails_def failing_step_def)

lemma Upgrade_healthy:
  assumes st: "\<forall>i<length ups. nat version \<le> i \<longrightarrow> well_behaved (ups ! i) \<and> succeeds (ups ! i)"
    and h: "healthy w"
    and p: "persisted_version (durable w) = version"
    and v: "0 \<le> version" "version \<le> int (length ups)"
  shows "\<exists>w'. Upgrade ups w = (Return None, w') \<and> healthy w' \<and>
           w' = iterations (drop (nat version) ups) version (snd (getVersion w)) \<and>
           log w' = log w @ map announce [version + 1..int (length ups)] \<and>
           persisted_version (durable w') = int (length ups)"
proof -
  from h have c: "faults w (clock w) = None" "faults w (Suc (clock w)) = None"
    by (simp_all add: healthy_def)
  from getVersion_ok [OF c(1)] c(2) p obtain w1 where
    g: "getVersion w = ((version, None), w1)" "durable w1 = create_version_table (durable w)"
      "faults w1 = faults w" "log w1 = log w" by auto
  have h1: "healthy w1" using h g(3) by (simp add: healthy_def)
  have t1: "version_rows (durable w1) \<noteq> None" using g(2) by (simp add: create_version_table_rows)
  from Upgrade_loop_healthy [OF st h1 t1 v] obtain w' where
    l: "Upgrade_loop ups version w1 = (Return None, w')" "healthy w'"
      "log w' = log w1 @ map announce [version + 1..int (length ups)]"
      "if version < int (length ups)
       then version_rows (durable w') = Some [IntCell (int (length ups))]
       else durable w' = durable w1"
      "w' = iterations (drop (nat version) ups) version w1" by blast
  have "persisted_version (durable w') = int (length ups)"
  proof (cases "version < int (length ups)")
    case True
    with l(4) show ?thesis by (simp add: persisted_version_single)
  next
    case False
    with l(4) g(2) p v show ?thesis by (simp add: persisted_version_create)
  qed
  moreover have "Upgrade ups w = (Return None, w')" using g(1) l(1) by (simp add: Upgrade_def)
  ultimately show ?thesis using l(2,3,5) g(1,4) by simp
qed

lemma Upgrade_fails_at:
  assumes st: "\<forall>i<nat k. nat version \<le> i \<longrightarrow> well_behaved (ups ! i) \<and> succeeds (ups ! i)"
    and k: "well_behaved (ups ! nat k)" "fails (ups ! nat k)"
    and h: "healthy w"
    and p: "persisted_version (durable w) = version"
    and v: "0 \<le> version" "version \<le> k" "k < int (length ups)"
  shows "\<exists>e tx w2 w'. Upgrade ups w = (Return (Some e), w') \<and>
           fst ((ups ! nat k) tx w2) = Some e \<and> healthy w' \<and>
           persisted_version (durable w') = k \<and>
           log w' = log w @ map announce [version + 1..k + 1]"
proof -
  from h have c: "faults w (clock w) = None" "faults w (Suc (clock w)) = None"
    by (simp_all add: healthy_def)
  from getVersion_ok [OF c(1)] c(2) p obtain w1 where
    g: "getVersion w = ((version, None), w1)" "durable w1 = create_version_table (durable w)"
      "faults w1 = faults w" "log w1 = log w" by auto
  have h1: "healthy w1" using h g(3) by (simp add: healthy_def)
  have t1: "version_rows (durable w1) \<noteq> None" using g(2) by (simp add: create_version_table_rows)
  have p1: "persisted_version (durable w1) = version" using g(2) p by (simp add: persisted_version_create)
  from Upgrade_loop_fails_at [OF st k h1 t1 p1 v] obtain e tx w2 w' where
    l: "Upgrade_loop ups version w1 = (Return (Some e), w')"
      "fst ((ups ! nat k) tx w2) = Some e" "healthy w'" "persisted_version (durable w') = k"
      "log w' = log w1 @ map announce [version + 1..k + 1]" by blast
  have "Upgrade ups w = (Return (Some e), w')" using g(1) l(1) by (simp add: Upgrade_def)
  with l(2,3,4,5) g(4) show ?thesis by auto
qed

lemma Upgrade_loop_negative:
  assumes "version < 0"
  shows "durable (snd (Upgrade_loop ups version w)) = durable w"
proof -
  obtain b w1 where b: "db_Begin w = (b, w1)" by fastforce
  have d: "durable w1 = durable w" using b by (cases b) (simp_all add: db_Begin_Inl db_Begin_Inr)
  from assms b d show ?thesis
    by (subst Upgrade_loop.simps) (simp split: sum.splits)
qed

lemma Upgrade_loop_durable_any:
  assumes "\<forall>f\<in>set ups. well_behaved f"
  shows "durable (snd (Upgrade_loop ups version w)) = durable w \<or>
         (\<exists>n. version < n \<and> n \<le> int (length ups) \<and>
              version_rows (durable (snd (Upgrade_loop ups version w))) = Some [IntCell n])"
proof (cases "version < 0")
  case True
  then show ?thesis by (simp add: Upgrade_loop_negative)
next
  case False
  then have "0 \<le> version" by simp
  from Upgrade_loop_durable [OF assms this, of w] show ?thesis by auto
qed

lemma Upgrade_monotone:
  assumes wb: "\<forall>f\<in>set ups. well_behaved f"
    and p: "persisted_version (durable w) \<le> int (length ups)"
    and r: "faults w (Suc (clock w)) = None"
  shows "persisted_version (durable w) \<le> persisted_version (durable (snd (Upgrade ups w))) \<and>
         persisted_version (durable (snd (Upgrade ups w))) \<le> int (length ups)"
proof (cases "faults w (clock w)")
  case (Some e)
  from getVersion_fault [OF this] have "Upgrade ups w = (Return (Some e), tick w)"
    by (simp add: Upgrade_def)
  with p show ?thesis by (simp add: tick_def)
next
  case None
  from getVersion_ok [OF None] r obtain w1 where
    g: "getVersion w = ((persisted_version (durable w), None), w1)"
      "durable w1 = create_version_table (durable w)" by auto
  have u: "Upgrade ups w = Upgrade_loop ups (persisted_version (durable w)) w1"
    using g(1) by (simp add: Upgrade_def)
  from Upgrade_loop_durable_any [OF wb, of "persisted_version (durable w)" w1]
  show ?thesis
  proof
    assume "durable (snd (Upgrade_loop ups (persisted_version (durable w)) w1)) = durable w1"
    with g(2) p show ?thesis unfolding u by (simp add: persisted_version_create)
  next
    assume "\<exists>n. persisted_version (durable w) < n \<and> n \<le> int (length ups) \<and>
      version_rows (durable (snd (Upgrade_loop ups (persisted_version (durable w)) w1))) = Some [IntCell n]"
    then show ?thesis unfolding u by (auto simp: persisted_version_single)
  qed
qed

lemma version_row_count_create:
  "version_row_count (create_version_table s) = version_row_count s"
  by (simp add: version_row_count_def create_version_table_def split: option.splits)

lemma Upgrade_durable:
  assumes "\<forall>f\<in>set ups. well_behaved f"
  shows "durable (snd (Upgrade ups w)) = durable w \<or>
         durable (snd (Upgrade ups w)) = create_version_table (durable w) \<or>
         (\<exists>n. version_rows (durable (snd (Upgrade ups w))) = Some [IntCell n])"
proof (cases "faults w (clock w)")
  case (Some e)
  from getVersion_fault [OF this] show ?thesis by (simp add: Upgrade_def tick_def)
next
  case None
  from getVersion_ok [OF None] obtain v w1 where
    g: "getVersion w = ((v, None), w1)" "durable w1 = create_version_table (durable w)" by blast
  then have u: "Upgrade ups w = Upgrade_loop ups v w1" by (simp add: Upgrade_def)
  from Upgrade_loop_durable_any [OF assms, of v w1] g(2) show ?thesis unfolding u by auto
qed

lemma length_Upgrade_calls: "length (Upgrade_calls ups Fs w) = length Fs"
  by (induction Fs arbitrary: w) (simp_all add: Let_def)

section \<open>The claims\<close>

lemmas fixture_defs = no_faults_def faults_at_def empty_store_def world_of_def new_world_def

lemmas run_defs = Upgrade_def getVersion_def setVersion_def db_Exec_def db_QueryRow_def db_Begin_def
  tx_Exec_def tx_Commit_def tx_Rollback_def tick_def log_Infof_def select_version_def
  create_version_table_def Upgrades_def upgradeV1_def upgradeV2_def Upgrade_loop.simps

lemma healthy_no_faults: "healthy (world_of s no_faults)"
  by (simp add: healthy_def world_of_def no_faults_def)

text \<open>
  Claim C1. A store whose persisted version is 0, steps that all succeed, a database that
  fails no call: \<open>Upgrade\<close> returns nil, and what it has done after reading the version is
  \<open>iterations ups 0\<close>: one pass for each step, in the order of the list, pass \<open>i\<close> calling
  step \<open>i\<close> once with the transaction in which version \<open>i + 1\<close> is then written and
  committed. The log has grown by exactly the lines v1, v2, ..., vN, and the persisted
  version ends at the number of steps.
\<close>

theorem Upgrade_applies_every_step_once:
  assumes "\<forall>f\<in>set ups. well_behaved f \<and> succeeds f"
    and "healthy w"
    and "persisted_version (durable w) = 0"
  shows "\<exists>w'. Upgrade ups w = (Return None, w') \<and>
           w' = iterations ups 0 (snd (getVersion w)) \<and>
           log w' = log w @ map announce [1..int (length ups)] \<and>
           persisted_version (durable w') = int (length ups)"
proof -
  have st: "\<forall>i<length ups. nat 0 \<le> i \<longrightarrow> well_behaved (ups ! i) \<and> succeeds (ups ! i)"
    using assms(1) by simp
  from Upgrade_healthy [OF st assms(2,3)] show ?thesis by auto
qed

text \<open>
  The two steps of the file on a new database.
\<close>

theorem Upgrade_applies_every_step_once_witness:
  "fst (Upgrade Upgrades (new_world no_faults)) = Return None \<and>
   log (snd (Upgrade Upgrades (new_world no_faults))) =
     [Infof ''Upgrading database to v%d'' 1, Infof ''Upgrading database to v%d'' 2] \<and>
   persisted_version (durable (snd (Upgrade Upgrades (new_world no_faults)))) = 2"
proof -
  have st: "\<forall>f\<in>set Upgrades. well_behaved f \<and> succeeds f"
    by (simp add: Upgrades_def well_behaved_upgradeV1 well_behaved_upgradeV2
        succeeds_upgradeV1 succeeds_upgradeV2)
  have h: "healthy (new_world no_faults)" by (simp add: new_world_def healthy_no_faults)
  have p: "persisted_version (durable (new_world no_faults)) = 0"
    by (simp add: persisted_version_def select_version_def fixture_defs)
  have u: "[1..int (length Upgrades)] = [1, 2]"
    by (simp add: Upgrades_def upto_rec1)
  from Upgrade_applies_every_step_once [OF st h p]
  show ?thesis unfolding u by (auto simp: announce_def fixture_defs Upgrades_def)
qed

text \<open>
  Claim C2. The claim asks that the step's transaction is ended on every way out of
  \<open>Upgrade\<close>. On a new database where the thirteenth driver call, the
  \<^verbatim>\<open>DELETE FROM whatsmeow_version\<close> of the first \<open>setVersion\<close>, fails, \<open>Upgrade\<close>
  returns that error and transaction 0 is still open: that path returns without
  \<^verbatim>\<open>tx.Rollback()\<close>, which the path of a failing step does call.
\<close>

theorem Upgrade_setVersion_failure_leaves_transaction_open:
  "fst (Upgrade Upgrades (new_world (faults_at [12] ''disk full''))) = Return (Some ''disk full'') \<and>
   txs (snd (Upgrade Upgrades (new_world (faults_at [12] ''disk full'')))) 0 \<noteq> None"
  by (simp add: run_defs fixture_defs)

text \<open>
  Claim C3. Step \<open>k\<close> fails deterministically, the other steps succeed, the database
  fails no call, and the store starts at a version \<open>v0\<close> not above \<open>k\<close>. Then \<open>Upgrade\<close>
  returns an error that step \<open>k\<close> returned, the persisted version is \<open>k\<close>, and the steps
  called were \<open>v0\<close> to \<open>k\<close>. With step \<open>k\<close> replaced by one that succeeds, the next call
  returns nil, makes exactly the passes for the steps \<open>k\<close> to \<open>N - 1\<close> (the steps from
  \<open>k\<close> on, the cursor starting at \<open>k\<close>; its log lines are v(k+1), ..., vN) and leaves the
  persisted version at \<open>N\<close>.
\<close>

theorem Upgrade_resumes_at_failed_step:
  assumes wb: "\<forall>f\<in>set ups. well_behaved f"
    and k: "k < length ups" "fails (ups ! k)"
    and others: "\<forall>i<length ups. i \<noteq> k \<longrightarrow> succeeds (ups ! i)"
    and g: "well_behaved g" "succeeds g"
    and h: "healthy w"
    and p: "persisted_version (durable w) = v0" "0 \<le> v0" "v0 \<le> int k"
  shows "\<exists>err w1 w2.
           Upgrade ups w = (Return (Some err), w1) \<and>
           (\<exists>tx w'. fst ((ups ! k) tx w') = Some err) \<and>
           persisted_version (durable w1) = int k \<and>
           log w1 = log w @ map announce [v0 + 1..int k + 1] \<and>
           Upgrade (ups[k := g]) w1 = (Return None, w2) \<and>
           w2 = iterations (drop k (ups[k := g])) (int k) (snd (getVersion w1)) \<and>
           log w2 = log w1 @ map announce [int k + 1..int (length ups)] \<and>
           persisted_version (durable w2) = int (length ups)"
proof -
  have st: "\<forall>i<nat (int k). nat v0 \<le> i \<longrightarrow> well_behaved (ups ! i) \<and> succeeds (ups ! i)"
    using wb others k(1) by simp
  have kk: "well_behaved (ups ! nat (int k))" "fails (ups ! nat (int k))" using wb k by simp_all
  have kl: "int k < int (length ups)" using k(1) by simp
  from Upgrade_fails_at [OF st kk h p(1,2,3) kl] obtain err tx w' w1 where
    r1: "Upgrade ups w = (Return (Some err), w1)" "healthy w1"
      "fst ((ups ! nat (int k)) tx w') = Some err"
      "persisted_version (durable w1) = int k"
      "log w1 = log w @ map announce [v0 + 1..int k + 1]" by blast
  from r1(3) have e: "\<exists>tx w'. fst ((ups ! k) tx w') = Some err" by auto
  have st2: "\<forall>i<length (ups[k := g]). nat (int k) \<le> i \<longrightarrow>
      well_behaved (ups[k := g] ! i) \<and> succeeds (ups[k := g] ! i)"
    using wb others g by (simp add: nth_list_update)
  have kl2: "0 \<le> int k" "int k \<le> int (length (ups[k := g]))" using k(1) by simp_all
  from Upgrade_healthy [OF st2 r1(2,4) kl2] obtain w2 where
    r2: "Upgrade (ups[k := g]) w1 = (Return None, w2)"
      "log w2 = log w1 @ map announce [int k + 1..int (length (ups[k := g]))]"
      "persisted_version (durable w2) = int (length (ups[k := g]))"
      "w2 = iterations (drop (nat (int k)) (ups[k := g])) (int k) (snd (getVersion w1))" by blast
  from r1(1,4,5) e r2 show ?thesis by auto
qed

text \<open>
  The first step of the file followed by a step that fails, then the two steps of the file.
\<close>

theorem Upgrade_resumes_at_failed_step_witness:
  "fst (Upgrade [upgradeV1, failing_step ''boom''] (new_world no_faults)) = Return (Some ''boom'') \<and>
   persisted_version (durable (snd (Upgrade [upgradeV1, failing_step ''boom''] (new_world no_faults)))) = 1 \<and>
   fst (Upgrade Upgrades (snd (Upgrade [upgradeV1, failing_step ''boom''] (new_world no_faults)))) = Return None \<and>
   log (snd (Upgrade Upgrades (snd (Upgrade [upgradeV1, failing_step ''boom''] (new_world no_faults))))) =
     [Infof ''Upgrading database to v%d'' 1, Infof ''Upgrading database to v%d'' 2,
      Infof ''Upgrading database to v%d'' 2] \<and>
   persisted_version (durable (snd (Upgrade Upgrades
     (snd (Upgrade [upgradeV1, failing_step ''boom''] (new_world no_faults)))))) = 2"
proof -
  let ?ups = "[upgradeV1, failing_step ''boom'']"
  let ?w = "new_world no_faults"
  have wb: "\<forall>f\<in>set ?ups. well_behaved f"
    by (simp add: well_behaved_upgradeV1 well_behaved_failing_step)
  have k: "1 < length ?ups" "fails (?ups ! 1)" by (simp_all add: fails_failing_step)
  have others: "\<forall>i<length ?ups. i \<noteq> 1 \<longrightarrow> succeeds (?ups ! i)"
    by (simp add: succeeds_upgradeV1 less_Suc_eq)
  have h: "healthy ?w" by (simp add: new_world_def healthy_no_faults)
  have p: "persisted_version (durable ?w) = 0" "(0::int) \<le> 0" "0 \<le> int 1"
    by (simp_all add: persisted_version_def select_version_def fixture_defs)
  have u: "?ups[1 := upgradeV2] = Upgrades" by (simp add: Upgrades_def)
  have l: "[0 + 1..int 1 + 1] = [1, 2]" "[int 1 + 1..int (length ?ups)] = [2]"
    by (simp_all add: upto_rec1)
  from Upgrade_resumes_at_failed_step [OF wb k others well_behaved_upgradeV2 succeeds_upgradeV2 h p]
  show ?thesis unfolding u l by (auto simp: announce_def failing_step_def fixture_defs)
qed

text \<open>
  Claim C4, amended. Over any sequence of calls of \<open>Upgrade\<close> in each of which the
  \<^verbatim>\<open>SELECT\<close> of \<open>getVersion\<close> (driver call 1 of the call) does not fail,
  with steps that act only inside their transaction and a store whose version is not
  above the number of steps to begin with: the persisted version never decreases and
  never exceeds the number of steps. Any other driver call may fail.
\<close>

theorem persisted_version_monotone:
  assumes "\<forall>f\<in>set ups. well_behaved f"
    and "persisted w \<le> int (length ups)"
    and "\<forall>F\<in>set Fs. F 1 = None"
  shows "sorted (map persisted (w # Upgrade_calls ups Fs w)) \<and>
         (\<forall>w'\<in>set (Upgrade_calls ups Fs w). persisted w' \<le> int (length ups))"
  using assms(2-)
proof (induction Fs arbitrary: w)
  case Nil
  then show ?case by simp
next
  case (Cons F Fs)
  let ?w0 = "w\<lparr>clock := 0, faults := F\<rparr>"
  let ?w' = "snd (Upgrade ups ?w0)"
  have p0: "persisted_version (durable ?w0) \<le> int (length ups)"
    using Cons.prems(1) by (simp add: persisted_def)
  have r: "faults ?w0 (Suc (clock ?w0)) = None" using Cons.prems(2) by simp
  from Upgrade_monotone [OF assms(1) p0 r]
  have m: "persisted w \<le> persisted ?w'" "persisted ?w' \<le> int (length ups)"
    by (auto simp: persisted_def)
  from Cons.IH [OF m(2)] Cons.prems(2)
  have ih: "sorted (map persisted (?w' # Upgrade_calls ups Fs ?w'))"
    "\<forall>w'\<in>set (Upgrade_calls ups Fs ?w'). persisted w' \<le> int (length ups)" by simp_all
  have c: "Upgrade_calls ups (F # Fs) w = ?w' # Upgrade_calls ups Fs ?w'" by (simp add: Let_def)
  from ih m show ?case unfolding c by fastforce
qed

text \<open>
  Two calls on a new database: in the first the \<^verbatim>\<open>DELETE\<close> of \<open>setVersion\<close> fails,
  the second goes through.
\<close>

theorem persisted_version_monotone_witness:
  "map persisted (new_world no_faults #
     Upgrade_calls Upgrades [faults_at [12] ''disk full'', no_faults] (new_world no_faults)) = [0, 0, 2] \<and>
   sorted (map persisted (new_world no_faults #
     Upgrade_calls Upgrades [faults_at [12] ''disk full'', no_faults] (new_world no_faults))) \<and>
   persisted (Upgrade_calls Upgrades [faults_at [12] ''disk full'', no_faults] (new_world no_faults) ! 1) \<le> 2"
proof -
  let ?w = "new_world no_faults"
  let ?Fs = "[faults_at [12] ''disk full'', no_faults]"
  have wb: "\<forall>f\<in>set Upgrades. well_behaved f"
    by (simp add: Upgrades_def well_behaved_upgradeV1 well_behaved_upgradeV2)
  have p: "persisted ?w \<le> int (length Upgrades)"
    by (simp add: persisted_def persisted_version_def select_version_def fixture_defs Upgrades_def)
  have f: "\<forall>F\<in>set ?Fs. F 1 = None" by (simp add: fixture_defs)
  have v: "map persisted (?w # Upgrade_calls Upgrades ?Fs ?w) = [0, 0, 2]"
    by (simp add: persisted_def persisted_version_def run_defs fixture_defs ErrNoRows_def)
  have "Upgrade_calls Upgrades ?Fs ?w ! 1 \<in> set (Upgrade_calls Upgrades ?Fs ?w)"
    by (rule nth_mem) (simp add: length_Upgrade_calls del: Upgrade_calls.simps)
  with persisted_version_monotone [OF wb p f] v show ?thesis
    by (simp add: Upgrades_def)
qed

text \<open>
  The claim as stated fails when a read fails. A first call brings a new database to
  version 2. In the second call the \<^verbatim>\<open>SELECT\<close> fails (driver call 1); \<open>getVersion\<close>
  drops the error and reports version 0, step 0 runs again and commits version 1, and
  the \<^verbatim>\<open>Begin\<close> for step 1 fails (driver call 15). The persisted version has gone
  from 2 to 1.
\<close>

theorem Upgrade_version_decreases:
  "map persisted (Upgrade_calls Upgrades [no_faults, faults_at [1, 15] ''i/o timeout''] (new_world no_faults)) = [2, 1]"
  by (simp add: persisted_def persisted_version_def run_defs fixture_defs ErrNoRows_def)

text \<open>
  Claim C5. Wherever the loop stands (any cursor within the list, any state of the
  database and of the environment): when \<^verbatim>\<open>Begin\<close> has handed out the transaction
  and the step called with it returns an error, the loop returns exactly that error, the
  transaction is no longer open, the committed database is what it was when the iteration
  began, and nothing is logged after the line of the failed step: no further step is
  called.
\<close>

theorem Upgrade_loop_rolls_back_failed_step:
  assumes "0 \<le> version" "version < int (length ups)"
    and "well_behaved (ups ! nat version)"
    and "db_Begin w = (Inr tx, w1)"
    and "(ups ! nat version) tx (log_Infof ''Upgrading database to v%d'' (version + 1) w1) = (Some err, w2)"
  shows "\<exists>w'. Upgrade_loop ups version w = (Return (Some err), w') \<and> txs w' tx = None \<and>
           durable w' = durable w \<and> log w' = log w @ [announce (version + 1)]"
  using Upgrade_loop_step_fails [OF assms] by blast

text \<open>
  A failing step in front of \<open>upgradeV2\<close>.
\<close>

theorem Upgrade_loop_rolls_back_failed_step_witness:
  "fst (Upgrade_loop [failing_step ''boom'', upgradeV2] 0 (new_world no_faults)) = Return (Some ''boom'') \<and>
   txs (snd (Upgrade_loop [failing_step ''boom'', upgradeV2] 0 (new_world no_faults))) 0 = None \<and>
   durable (snd (Upgrade_loop [failing_step ''boom'', upgradeV2] 0 (new_world no_faults))) = empty_store \<and>
   log (snd (Upgrade_loop [failing_step ''boom'', upgradeV2] 0 (new_world no_faults))) =
     [Infof ''Upgrading database to v%d'' 1]"
proof -
  let ?ups = "[failing_step ''boom'', upgradeV2]"
  let ?w = "new_world no_faults"
  let ?w1 = "snd (db_Begin ?w)"
  let ?w2 = "log_Infof ''Upgrading database to v%d'' (0 + 1) ?w1"
  have v: "(0::int) \<le> 0" "0 < int (length ?ups)" by simp_all
  have wb: "well_behaved (?ups ! nat 0)" by (simp add: well_behaved_failing_step)
  have b: "db_Begin ?w = (Inr 0, ?w1)" by (simp add: db_Begin_def fixture_defs)
  have s: "(?ups ! nat 0) 0 ?w2 = (Some ''boom'', ?w2)" by (simp add: failing_step_def)
  from Upgrade_loop_rolls_back_failed_step [OF v wb b s]
  show ?thesis by (auto simp: announce_def fixture_defs)
qed

text \<open>
  Claim C6, amended. The first read of a store without the version table creates the
  table with no row in it; a missing row reads as version 0. A \<open>setVersion\<close> that succeeds
  leaves, in its transaction, exactly one row holding the new version, whatever the table
  held before. And \<open>Upgrade\<close> with steps that act only inside their transaction never
  takes the committed table from at most one row to more than one.
\<close>

theorem version_table_rows:
  "(version_rows (durable w) = None \<and> faults w (clock w) = None \<longrightarrow>
      version_rows (durable (snd (getVersion w))) = Some []) \<and>
   (setVersion tx version wa = (None, wb) \<longrightarrow>
      (\<exists>s. txs wb tx = Some s \<and> version_rows s = Some [IntCell version])) \<and>
   ((\<forall>f\<in>set ups. well_behaved f) \<and> version_row_count (durable wc) \<le> 1 \<longrightarrow>
      version_row_count (durable (snd (Upgrade ups wc))) \<le> 1)"
proof (intro conjI impI)
  assume a: "version_rows (durable w) = None \<and> faults w (clock w) = None"
  then have "faults w (clock w) = None" by simp
  from getVersion_ok [OF this] obtain v w1 where
    "getVersion w = ((v, None), w1)" "durable w1 = create_version_table (durable w)" by blast
  with a show "version_rows (durable (snd (getVersion w))) = Some []"
    by (simp add: create_version_table_def)
next
  assume "setVersion tx version wa = (None, wb)"
  from setVersion_None [OF this]
  show "\<exists>s. txs wb tx = Some s \<and> version_rows s = Some [IntCell version]" .
next
  assume a: "(\<forall>f\<in>set ups. well_behaved f) \<and> version_row_count (durable wc) \<le> 1"
  then have wb: "\<forall>f\<in>set ups. well_behaved f" by simp
  from Upgrade_durable [OF wb, of wc] a
  show "version_row_count (durable (snd (Upgrade ups wc))) \<le> 1"
    by (auto simp: version_row_count_create) (simp add: version_row_count_def)
qed

text \<open>
  A first read of a new database, a \<open>setVersion\<close> in a transaction begun after it, and a
  whole \<open>Upgrade\<close>.
\<close>

theorem version_table_rows_witness:
  "version_rows (durable (snd (getVersion (new_world no_faults)))) = Some [] \<and>
   fst (setVersion 0 1 (snd (db_Begin (snd (getVersion (new_world no_faults)))))) = None \<and>
   (\<exists>s. txs (snd (setVersion 0 1 (snd (db_Begin (snd (getVersion (new_world no_faults))))))) 0 = Some s \<and>
        version_rows s = Some [IntCell 1]) \<and>
   version_row_count (durable (snd (Upgrade Upgrades (new_world no_faults)))) \<le> 1"
proof -
  let ?w = "new_world no_faults"
  let ?wa = "snd (db_Begin (snd (getVersion ?w)))"
  let ?wb = "snd (setVersion 0 1 ?wa)"
  have a: "version_rows (durable ?w) = None \<and> faults ?w (clock ?w) = None"
    by (simp add: fixture_defs)
  have b0: "fst (setVersion 0 1 ?wa) = None"
    by (simp add: run_defs fixture_defs ErrNoRows_def)
  then have b: "setVersion 0 1 ?wa = (None, ?wb)" by (metis prod.collapse)
  have c: "(\<forall>f\<in>set Upgrades. well_behaved f) \<and> version_row_count (durable ?w) \<le> 1"
    by (simp add: Upgrades_def well_behaved_upgradeV1 well_behaved_upgradeV2
        version_row_count_def fixture_defs)
  from version_table_rows [of ?w 0 1 ?wa ?wb Upgrades ?w] a b b0 c
  show ?thesis by blast
qed

text \<open>
  The claim as stated fails: after the first read of a new database the table exists and
  holds no row, not one.
\<close>

theorem getVersion_creates_empty_table:
  "fst (getVersion (new_world no_faults)) = (0, None) \<and>
   version_rows (durable (snd (getVersion (new_world no_faults)))) = Some [] \<and>
   version_row_count (durable (snd (getVersion (new_world no_faults)))) \<noteq> 1"
  by (simp add: run_defs fixture_defs version_row_count_def ErrNoRows_def)

text \<open>
  Claim C7. On a store without the version table, when the
  \<^verbatim>\<open>CREATE TABLE IF NOT EXISTS\<close> does not fail, \<open>getVersion\<close> returns 0 and no error
  and leaves the table created, with no row. Any later call that finds the committed
  database as the first call left it, that is before any upgrade step has committed,
  returns 0 again and leaves it so.
\<close>

theorem getVersion_first_read:
  assumes "version_rows (durable w) = None" "faults w (clock w) = None"
  shows "\<exists>w1. getVersion w = ((0, None), w1) \<and> version_rows (durable w1) = Some [] \<and>
           (\<forall>w2. durable w2 = durable w1 \<and> faults w2 (clock w2) = None \<longrightarrow>
                 fst (getVersion w2) = (0, None) \<and> durable (snd (getVersion w2)) = durable w1)"
proof -
  from getVersion_ok [OF assms(2)] obtain v w1 where
    g: "getVersion w = ((v, None), w1)" "durable w1 = create_version_table (durable w)"
      "v = (if faults w (Suc (clock w)) = None then persisted_version (durable w) else 0)" by blast
  have v: "v = 0" using g(3) assms(1) by (simp add: persisted_version_def select_version_def)
  have r: "version_rows (durable w1) = Some []" using g(2) assms(1) by (simp add: create_version_table_def)
  have "fst (getVersion w2) = (0, None) \<and> durable (snd (getVersion w2)) = durable w1"
    if "durable w2 = durable w1 \<and> faults w2 (clock w2) = None" for w2
  proof -
    from that have "faults w2 (clock w2) = None" by simp
    from getVersion_ok [OF this] obtain v2 w3 where
      g2: "getVersion w2 = ((v2, None), w3)" "durable w3 = create_version_table (durable w2)"
        "v2 = (if faults w2 (Suc (clock w2)) = None then persisted_version (durable w2) else 0)" by blast
    have "v2 = 0" using g2(3) that r by (simp add: persisted_version_def select_version_def)
    moreover have "durable w3 = durable w1" using g2(2) that r by (simp add: create_version_table_def)
    ultimately show ?thesis using g2(1) by simp
  qed
  with g(1) v r show ?thesis by blast
qed

text \<open>
  Two reads of a new database in a row.
\<close>

theorem getVersion_first_read_witness:
  "fst (getVersion (new_world no_faults)) = (0, None) \<and>
   version_rows (durable (snd (getVersion (new_world no_faults)))) = Some [] \<and>
   fst (getVersion (snd (getVersion (new_world no_faults)))) = (0, None) \<and>
   durable (snd (getVersion (snd (getVersion (new_world no_faults))))) =
     durable (snd (getVersion (new_world no_faults)))"
proof -
  let ?w = "new_world no_faults"
  have a: "version_rows (durable ?w) = None" "faults ?w (clock ?w) = None"
    by (simp_all add: fixture_defs)
  from getVersion_first_read [OF a] obtain w1 where
    w1: "getVersion ?w = ((0, None), w1)" "version_rows (durable w1) = Some []"
      "\<forall>w2. durable w2 = durable w1 \<and> faults w2 (clock w2) = None \<longrightarrow>
            fst (getVersion w2) = (0, None) \<and> durable (snd (getVersion w2)) = durable w1" by blast
  have "faults w1 (clock w1) = None"
    using w1(1) by (auto simp: getVersion_def db_Exec_def db_QueryRow_def tick_def fixture_defs split: prod.splits)
  with w1(3) have "fst (getVersion w1) = (0, None) \<and> durable (snd (getVersion w1)) = durable w1" by blast
  with w1(1,2) show ?thesis by simp
qed

text \<open>
  Claim C8, amended. When step \<open>k\<close> fails with the error \<open>err\<close> (the steps before it
  succeed, the database fails no call), \<open>Upgrade\<close> returns exactly \<open>err\<close>, the value the
  step returned, with nothing added to it. What names the failed step is the log: its last
  line is the one written before step \<open>k\<close> was called, v(k+1).
\<close>

theorem Upgrade_returns_step_error_as_is:
  assumes wb: "\<forall>f\<in>set ups. well_behaved f"
    and k: "k < length ups" "\<forall>tx w. fst ((ups ! k) tx w) = Some err"
    and before: "\<forall>i<k. succeeds (ups ! i)"
    and h: "healthy w"
    and p: "persisted_version (durable w) = v0" "0 \<le> v0" "v0 \<le> int k"
  shows "\<exists>w'. Upgrade ups w = (Return (Some err), w') \<and> last (log w') = announce (int k + 1)"
proof -
  have st: "\<forall>i<nat (int k). nat v0 \<le> i \<longrightarrow> well_behaved (ups ! i) \<and> succeeds (ups ! i)"
    using wb before k(1) by simp
  have kk: "well_behaved (ups ! nat (int k))" "fails (ups ! nat (int k))"
    using wb k by (simp_all add: fails_def)
  have kl: "int k < int (length ups)" using k(1) by simp
  from Upgrade_fails_at [OF st kk h p(1,2,3) kl] obtain e tx w2 w' where
    r: "Upgrade ups w = (Return (Some e), w')" "fst ((ups ! nat (int k)) tx w2) = Some e"
      "log w' = log w @ map announce [v0 + 1..int k + 1]" by blast
  from r(2) k(2) have "e = err" by simp
  moreover have "[v0 + 1..int k + 1] = [v0 + 1..int k] @ [int k + 1]"
    using p(3) by (simp add: upto_rec2)
  ultimately show ?thesis using r(1,3) by simp
qed

text \<open>
  The first step of the file followed by a step that fails.
\<close>

theorem Upgrade_returns_step_error_as_is_witness:
  "fst (Upgrade [upgradeV1, failing_step ''boom''] (new_world no_faults)) = Return (Some ''boom'') \<and>
   last (log (snd (Upgrade [upgradeV1, failing_step ''boom''] (new_world no_faults)))) =
     Infof ''Upgrading database to v%d'' 2"
proof -
  let ?ups = "[upgradeV1, failing_step ''boom'']"
  let ?w = "new_world no_faults"
  have wb: "\<forall>f\<in>set ?ups. well_behaved f"
    by (simp add: well_behaved_upgradeV1 well_behaved_failing_step)
  have k: "1 < length ?ups" "\<forall>tx w. fst ((?ups ! 1) tx w) = Some ''boom''"
    by (simp_all add: failing_step_def)
  have before: "\<forall>i<1. succeeds (?ups ! i)" by (simp add: succeeds_upgradeV1)
  have h: "healthy ?w" by (simp add: new_world_def healthy_no_faults)
  have p: "persisted_version (durable ?w) = 0" "(0::int) \<le> 0" "0 \<le> int 1"
    by (simp_all add: persisted_version_def select_version_def fixture_defs)
  from Upgrade_returns_step_error_as_is [OF wb k before h p]
  show ?thesis by (auto simp: announce_def)
qed

text \<open>
  The claim as stated fails: the same error value comes back whether step 0 or step 1
  returned it, so the error does not tell the index of the failed step.
\<close>

theorem Upgrade_same_error_from_either_step:
  "fst (Upgrade [failing_step ''boom'', upgradeV2] (new_world no_faults)) = Return (Some ''boom'') \<and>
   fst (Upgrade [upgradeV2, failing_step ''boom''] (new_world no_faults)) = Return (Some ''boom'')"
  by (simp add: run_defs fixture_defs failing_step_def)

text \<open>
  Claim C9, amended. \<open>getVersion\<close> returns an error exactly when the
  \<^verbatim>\<open>CREATE TABLE IF NOT EXISTS\<close> fails; the integer is then -1 and \<open>Upgrade\<close> returns
  that same error at once, with nothing done but the failed driver call. When the
  \<^verbatim>\<open>CREATE\<close> goes through, \<open>getVersion\<close> returns no error, and if the
  \<^verbatim>\<open>SELECT\<close> fails or the table has no first row holding an integer it returns
  version 0.
\<close>

theorem getVersion_error_only_from_create:
  "(faults w (clock w) = Some err \<longrightarrow>
      getVersion w = ((- 1, Some err), tick w) \<and> Upgrade ups w = (Return (Some err), tick w)) \<and>
   (faults w (clock w) = None \<longrightarrow>
      snd (fst (getVersion w)) = None \<and>
      (faults w (Suc (clock w)) \<noteq> None \<or>
       (\<forall>v rest. version_rows (durable w) \<noteq> Some (IntCell v # rest)) \<longrightarrow>
       fst (getVersion w) = (0, None)))"
proof (intro conjI impI)
  assume "faults w (clock w) = Some err"
  from getVersion_fault [OF this]
  show "getVersion w = ((- 1, Some err), tick w)" "Upgrade ups w = (Return (Some err), tick w)"
    by (simp_all add: Upgrade_def)
next
  assume c: "faults w (clock w) = None"
  from getVersion_ok [OF c] obtain v w1 where
    g: "getVersion w = ((v, None), w1)"
      "v = (if faults w (Suc (clock w)) = None then persisted_version (durable w) else 0)" by blast
  from g(1) show "snd (fst (getVersion w)) = None" by simp
  assume "faults w (Suc (clock w)) \<noteq> None \<or>
      (\<forall>v rest. version_rows (durable w) \<noteq> Some (IntCell v # rest))"
  then have "v = 0"
  proof
    assume "faults w (Suc (clock w)) \<noteq> None"
    with g(2) show ?thesis by simp
  next
    assume n: "\<forall>v rest. version_rows (durable w) \<noteq> Some (IntCell v # rest)"
    have "persisted_version (durable w) = 0"
    proof (cases "version_rows (durable w)")
      case None
      then show ?thesis by (simp add: persisted_version_def select_version_def)
    next
      case (Some rows)
      show ?thesis
      proof (cases rows)
        case Nil
        with Some show ?thesis by (simp add: persisted_version_def select_version_def)
      next
        case (Cons c rest)
        with Some n have "c = NullCell" by (cases c) auto
        with Some Cons show ?thesis by (simp add: persisted_version_def select_version_def)
      qed
    qed
    with g(2) show ?thesis by simp
  qed
  with g(1) show "fst (getVersion w) = (0, None)" by simp
qed

text \<open>
  A database whose \<^verbatim>\<open>CREATE TABLE\<close> fails, and one at version 2 whose
  \<^verbatim>\<open>SELECT\<close> fails.
\<close>

theorem getVersion_error_only_from_create_witness:
  "getVersion (new_world (faults_at [0] ''connection refused'')) =
     ((- 1, Some ''connection refused''), tick (new_world (faults_at [0] ''connection refused''))) \<and>
   Upgrade Upgrades (new_world (faults_at [0] ''connection refused'')) =
     (Return (Some ''connection refused''), tick (new_world (faults_at [0] ''connection refused''))) \<and>
   fst (getVersion (world_of version_2_store (faults_at [1] ''read failed''))) = (0, None)"
proof -
  let ?a = "new_world (faults_at [0] ''connection refused'')"
  let ?b = "world_of version_2_store (faults_at [1] ''read failed'')"
  have a: "faults ?a (clock ?a) = Some ''connection refused''" by (simp add: fixture_defs)
  have b: "faults ?b (clock ?b) = None" "faults ?b (Suc (clock ?b)) \<noteq> None"
    by (simp_all add: fixture_defs)
  from getVersion_error_only_from_create [of ?a "''connection refused''" Upgrades] a
  have "getVersion ?a = ((- 1, Some ''connection refused''), tick ?a) \<and>
        Upgrade Upgrades ?a = (Return (Some ''connection refused''), tick ?a)" by blast
  moreover from getVersion_error_only_from_create [of ?b undefined Upgrades] b
  have "fst (getVersion ?b) = (0, None)" by blast
  ultimately show ?thesis by simp
qed

text \<open>
  The claim as stated fails: a failed read of a store at version 2, and a version row
  holding NULL, both come back as version 0 with no error.
\<close>

theorem getVersion_hides_read_failure:
  "fst (getVersion (world_of version_2_store (faults_at [1] ''read failed''))) = (0, None) \<and>
   fst (getVersion (world_of null_version_store no_faults)) = (0, None)"
  by (simp add: run_defs fixture_defs version_2_store_def null_version_store_def ErrScanNull_def)

text \<open>
  Claim C10. Whenever \<open>getVersion\<close> returns an error, the integer it returns with it
  is -1.
\<close>

theorem getVersion_error_minus_one:
  "getVersion w = ((version, Some err), w') \<Longrightarrow> version = - 1"
  by (auto simp: getVersion_def split: prod.splits option.splits)

text \<open>
  A new database whose first driver call, the \<^verbatim>\<open>CREATE TABLE\<close>, fails.
\<close>

theorem getVersion_error_minus_one_witness:
  "fst (getVersion (new_world (faults_at [0] ''connection refused''))) = (- 1, Some ''connection refused'')"
proof -
  let ?w = "new_world (faults_at [0] ''connection refused'')"
  obtain v w' where g: "getVersion ?w = ((v, Some ''connection refused''), w')"
    by (simp add: getVersion_def db_Exec_def fixture_defs)
  from getVersion_error_minus_one [OF g] g show ?thesis by simp
qed

end
